theory Spec2Isabelle
  imports Main
begin

section \<open>JavaScript strings and the email pattern\<close>

text \<open>
  A JavaScript string is modelled as a \<open>string\<close>: a list of characters, compared
  code unit by code unit, with no case folding anywhere.
\<close>

definition in_range :: "char \<Rightarrow> char \<Rightarrow> char \<Rightarrow> bool" where
  "in_range lo hi c = ((of_char lo :: nat) \<le> of_char c \<and> (of_char c :: nat) \<le> of_char hi)"

text \<open>The class \<open>[a-zA-Z]\<close>.\<close>

definition alpha_char :: "char \<Rightarrow> bool" where
  "alpha_char c = (in_range CHR ''a'' CHR ''z'' c \<or> in_range CHR ''A'' CHR ''Z'' c)"

text \<open>The class \<open>[a-zA-Z0-9.-]\<close>.\<close>

definition domain_char :: "char \<Rightarrow> bool" where
  "domain_char c = (alpha_char c \<or> in_range CHR ''0'' CHR ''9'' c
     \<or> c = CHR ''.'' \<or> c = CHR ''-'')"

text \<open>The class \<open>[a-zA-Z0-9._%+-]\<close>.\<close>

definition local_char :: "char \<Rightarrow> bool" where
  "local_char c = (alpha_char c \<or> in_range CHR ''0'' CHR ''9'' c
     \<or> c = CHR ''.'' \<or> c = CHR ''_'' \<or> c = CHR ''%'' \<or> c = CHR ''+'' \<or> c = CHR ''-'')"

text \<open>
  \<open>emailRegex = /[a-zA-Z0-9._%+-]+@[a-zA-Z0-9.-]+\.[a-zA-Z]{2,}/g\<close>, matched the way a
  backtracking engine does: every quantifier is greedy, takes the longest run first and
  gives characters back one at a time while the rest of the pattern fails. Each function
  below matches a suffix of the pattern at the head of its argument and returns the number
  of characters consumed.
\<close>

text \<open>\<open>[a-zA-Z]{2,}\<close> at the end of the pattern: the longest run, of two letters at least.\<close>

definition m_tld :: "string \<Rightarrow> nat option" where
  "m_tld s = (let k = length (takeWhile alpha_char s) in if 2 \<le> k then Some k else None)"

text \<open>\<open>\.[a-zA-Z]{2,}\<close>\<close>

definition m_dot_tld :: "string \<Rightarrow> nat option" where
  "m_dot_tld s = (case s of
       [] \<Rightarrow> None
     | c # r \<Rightarrow> if c = CHR ''.'' then map_option Suc (m_tld r) else None)"

text \<open>
  \<open>[a-zA-Z0-9.-]+\.[a-zA-Z]{2,}\<close>, the domain run holding \<open>j\<close> characters at first and
  one fewer after each failure, never fewer than one.
\<close>

fun m_domain :: "nat \<Rightarrow> string \<Rightarrow> nat option" where
  "m_domain 0 s = None"
| "m_domain (Suc j) s = (case m_dot_tld (drop (Suc j) s) of
       Some t \<Rightarrow> Some (Suc j + t)
     | None \<Rightarrow> m_domain j s)"

text \<open>\<open>@[a-zA-Z0-9.-]+\.[a-zA-Z]{2,}\<close>\<close>

definition m_at_domain :: "string \<Rightarrow> nat option" where
  "m_at_domain s = (case s of
       [] \<Rightarrow> None
     | c # r \<Rightarrow> if c = CHR ''@''
         then map_option Suc (m_domain (length (takeWhile domain_char r)) r)
         else None)"

text \<open>The whole pattern, the local run holding \<open>k\<close> characters at first.\<close>

fun m_local :: "nat \<Rightarrow> string \<Rightarrow> nat option" where
  "m_local 0 s = None"
| "m_local (Suc k) s = (case m_at_domain (drop (Suc k) s) of
       Some t \<Rightarrow> Some (Suc k + t)
     | None \<Rightarrow> m_local k s)"

definition match_here :: "string \<Rightarrow> nat option" where
  "match_here s = m_local (length (takeWhile local_char s)) s"

text \<open>
  \<open>String.prototype.match\<close> with a global pattern: \<open>lastIndex\<close> starts at 0 on every
  call; the pattern is tried at each index from there, the first index where it matches
  gives the next element, and the search goes on from the end of that match (one further
  when the match is empty). The result is \<open>null\<close> when nothing matched.
\<close>

function match_all :: "string \<Rightarrow> string list" where
  "match_all [] = []"
| "match_all (c # s) = (case match_here (c # s) of
       None \<Rightarrow> match_all s
     | Some n \<Rightarrow> take n (c # s) # match_all (drop (max 1 n) (c # s)))"
  by pat_completeness auto

termination
  by (relation "measure length") auto

definition js_match :: "string \<Rightarrow> string list option" where
  "js_match s = (let ms = match_all s in if ms = [] then None else Some ms)"

text \<open>\<open>url.match(emailRegex) || []\<close>\<close>

definition extractedEmails :: "string \<Rightarrow> string list" where
  "extractedEmails url = (case js_match url of None \<Rightarrow> [] | Some ms \<Rightarrow> ms)"


section \<open>Library operations used by the server\<close>

text \<open>
  \<open>String.prototype.trim\<close> removes white space and line terminators from both ends.
  Of the code units it removes, those below 256 are tab, line feed, vertical tab, form
  feed, carriage return, space and no-break space.
\<close>

definition js_ws :: "char \<Rightarrow> bool" where
  "js_ws c = ((of_char c :: nat) \<in> {9, 10, 11, 12, 13, 32, 160})"

definition js_trim :: "string \<Rightarrow> string" where
  "js_trim s = rev (dropWhile js_ws (rev (dropWhile js_ws s)))"

text \<open>
  \<open>s.split(c)\<close> for a one-character separator: the pieces between the separators, so
  one more piece than there are separators, and \<open>[""]\<close> for the empty string.
\<close>

fun js_split :: "char \<Rightarrow> string \<Rightarrow> string list" where
  "js_split c [] = [[]]"
| "js_split c (x # xs) = (if x = c then [] # js_split c xs
     else (case js_split c xs of [] \<Rightarrow> [[x]] | y # ys \<Rightarrow> (x # y) # ys))"

text \<open>\<open>xs[i]\<close>: \<open>undefined\<close>, here \<open>None\<close>, when \<open>i\<close> is out of range.\<close>

definition js_index :: "'a list \<Rightarrow> nat \<Rightarrow> 'a option" where
  "js_index xs i = (if i < length xs then Some (xs ! i) else None)"

text \<open>
  A \<open>Set\<close> of strings is the list of its elements in insertion order. The elements live
  in an internal slot of the object, not in properties: \<open>add\<close> and \<open>has\<close> work on the
  slot, while the operator \<open>in\<close> asks whether the object or its prototype chain
  (\<open>Set.prototype\<close>, \<open>Object.prototype\<close>) has a property of that name.
\<close>

type_synonym js_set = "string list"

definition Set_add :: "string \<Rightarrow> js_set \<Rightarrow> js_set" where
  "Set_add x S = (if x \<in> set S then S else S @ [x])"

definition Set_has :: "string option \<Rightarrow> js_set \<Rightarrow> bool" where
  "Set_has v S = (case v of None \<Rightarrow> False | Some x \<Rightarrow> x \<in> set S)"

definition Set_property_names :: "string list" where
  "Set_property_names =
     [''constructor'', ''has'', ''add'', ''delete'', ''clear'', ''entries'', ''forEach'',
      ''keys'', ''size'', ''values'', ''union'', ''intersection'', ''difference'',
      ''symmetricDifference'', ''isSubsetOf'', ''isSupersetOf'', ''isDisjointFrom'',
      ''__defineGetter__'', ''__defineSetter__'', ''hasOwnProperty'', ''__lookupGetter__'',
      ''__lookupSetter__'', ''isPrototypeOf'', ''propertyIsEnumerable'', ''toString'',
      ''valueOf'', ''__proto__'', ''toLocaleString'']"

definition js_in :: "string \<Rightarrow> js_set \<Rightarrow> bool" where
  "js_in key S = (key \<in> set Set_property_names)"

text \<open>
  \<open>dns.resolveMx(domain, (err, addresses) => ...)\<close>: the resolver is a parameter of the
  model, a function from the domain to what the callback receives, an error or the list
  of records (priority and exchange).
\<close>

datatype mx_reply = MxError string | MxRecords "(nat \<times> string) list"

type_synonym resolver = "string \<Rightarrow> mx_reply"

text \<open>\<open>!err && addresses && addresses.length > 0\<close>\<close>

definition mx_ok :: "mx_reply \<Rightarrow> bool" where
  "mx_ok r = (case r of MxError e \<Rightarrow> False | MxRecords addresses \<Rightarrow> 0 < length addresses)"

datatype 'a promise = Fulfilled 'a | Rejected string

section \<open>The server\<close>

definition UPLOAD_FOLDER :: string where
  "UPLOAD_FOLDER = ''uploads''"

definition BLACKLISTED_DOMAINS :: js_set where
  "BLACKLISTED_DOMAINS = [''sentry.io'', ''example.com'', ''test.com'']"

text \<open>
  \<open>validateEmail\<close> returns how its promise settles and the domains it handed to
  \<open>dns.resolveMx\<close>. With \<open>domain\<close> undefined the resolver throws on its argument inside
  the promise's executor, which rejects the promise.
\<close>

definition validateEmail :: "resolver \<Rightarrow> string \<Rightarrow> bool promise \<times> string list" where
  "validateEmail dns email =
     (let domain = js_index (js_split CHR ''@'' email) 1 in
      if Set_has domain BLACKLISTED_DOMAINS then (Fulfilled False, [])
      else (case domain of
          None \<Rightarrow> (Rejected ''ERR_INVALID_ARG_TYPE'', [])
        | Some d \<Rightarrow> (Fulfilled (mx_ok (dns d)), [d])))"

text \<open>
  The state of the two variables of \<open>processCSV\<close> that the row handlers share, the set
  \<open>emails\<close> and the array \<open>results\<close>, with the domains looked up so far and the
  rejections of a row handler's promise, which nothing awaits.
\<close>

record run =
  emails :: js_set
  results :: "(string \<times> string) list"
  lookups :: "string list"
  unhandled :: "string list"

definition new_run :: run where
  "new_run = \<lparr>emails = [], results = [], lookups = [], unhandled = []\<rparr>"

text \<open>
  The loop \<open>for (const email of extractedEmails)\<close> of one handler, from its head to its
  end, every \<open>await\<close> taking the value its promise settles to. \<open>&&\<close> calls
  \<open>validateEmail\<close> only when its left operand is true; a rejected \<open>await\<close> throws out of
  the loop and out of the handler.
\<close>

fun collect :: "resolver \<Rightarrow> string \<Rightarrow> string list \<Rightarrow> run \<Rightarrow> run" where
  "collect dns name [] st = st"
| "collect dns name (email # rest) st =
     (if js_in email (emails st) then collect dns name rest st
      else (case validateEmail dns email of
          (Rejected e, qs) \<Rightarrow>
            st\<lparr>lookups := lookups st @ qs, unhandled := unhandled st @ [e]\<rparr>
        | (Fulfilled ok, qs) \<Rightarrow>
            (if ok
             then collect dns name rest
                    (st\<lparr>emails := Set_add email (emails st),
                        results := results st @ [(name, email)],
                        lookups := lookups st @ qs\<rparr>)
             else collect dns name rest (st\<lparr>lookups := lookups st @ qs\<rparr>))))"

text \<open>The handler of the parser's \<open>data\<close> event; a row is the array of its fields.\<close>

definition on_data :: "resolver \<Rightarrow> string list \<Rightarrow> run \<Rightarrow> run" where
  "on_data dns row st =
     (if 2 \<le> length row
      then (let name = js_trim (row ! 0);
                url = js_trim (row ! 1)
            in collect dns name (extractedEmails url) st)
      else st)"

text \<open>
  The handlers of the rows, each run from its start to its end before the next one
  starts. The parser does not wait for a handler, so this is the program's run only when
  every lookup is answered before the next row arrives; the event loop below has the
  other runs. It is kept for what does not depend on the order of the events.
\<close>

definition run_rows :: "resolver \<Rightarrow> string list list \<Rightarrow> run" where
  "run_rows dns rows = foldl (\<lambda>st row. on_data dns row st) new_run rows"

section \<open>The file system\<close>

text \<open>
  The file system holds regular files and directories under absolute paths, a path being
  the list of its components from the root; the root itself is a directory. With it come
  the working directory of the server, the paths that cannot be opened for writing, and
  the \<open>error\<close> events emitted on a stream that has no listener for them, each of
  which is an uncaught exception of the process.
\<close>

datatype node = File string | Directory

datatype errno = ENOENT | ENOTDIR | EISDIR | EACCES | EINVAL

record world =
  nodes :: "string list \<rightharpoonup> node"
  cwd :: "string list"
  unwritable :: "string list list"
  uncaught :: "errno list"

definition node_at :: "world \<Rightarrow> string list \<Rightarrow> node option" where
  "node_at w c = (if c = [] then Some Directory else nodes w c)"

text \<open>
  How the operating system follows a path from the directory \<open>cur\<close>: every component is
  taken from a directory; an empty component and \<open>.\<close> stay there, \<open>..\<close> goes to the
  parent, the root being its own parent. There are no symbolic links.
\<close>

fun walk :: "world \<Rightarrow> string list \<Rightarrow> string list \<Rightarrow> errno + string list" where
  "walk w cur [] = Inr cur"
| "walk w cur (p # ps) =
     (case node_at w cur of
        None \<Rightarrow> Inl ENOENT
      | Some (File text) \<Rightarrow> Inl ENOTDIR
      | Some Directory \<Rightarrow>
          (if p = [] \<or> p = ''.'' then walk w cur ps
           else if p = ''..'' then walk w (butlast cur) ps
           else walk w (cur @ [p]) ps))"

text \<open>
  A path string as the file system calls of Node take it: the empty string names
  nothing, a string with a NUL character is refused, a string that starts with \<open>/\<close> is
  followed from the root and any other from the working directory.
\<close>

definition locate :: "world \<Rightarrow> string \<Rightarrow> errno + string list" where
  "locate w p =
     (if p = [] then Inl ENOENT
      else if CHR 0x00 \<in> set p then Inl EINVAL
      else walk w (if hd p = CHR ''/'' then [] else cwd w) (js_split CHR ''/'' p))"

definition stat :: "world \<Rightarrow> string \<Rightarrow> node option" where
  "stat w p = (case locate w p of Inl e \<Rightarrow> None | Inr c \<Rightarrow> node_at w c)"

text \<open>
  \<open>source.pipe(fs.createWriteStream(path))\<close> with the default flag \<open>w\<close>: the file is
  created or truncated and then holds what the source produced; when it cannot be opened
  the stream emits \<open>error\<close>.
\<close>

definition pipe_to_file :: "string \<Rightarrow> string \<Rightarrow> world \<Rightarrow> world" where
  "pipe_to_file p text w =
     (case locate w p of
        Inl e \<Rightarrow> w\<lparr>uncaught := uncaught w @ [e]\<rparr>
      | Inr c \<Rightarrow>
          (if node_at w c = Some Directory then w\<lparr>uncaught := uncaught w @ [EISDIR]\<rparr>
           else if c \<in> set (unwritable w) then w\<lparr>uncaught := uncaught w @ [EACCES]\<rparr>
           else w\<lparr>nodes := (nodes w)(c \<mapsto> File text)\<rparr>))"

text \<open>\<open>path.join\<close> of two plain segments, with the POSIX separator.\<close>

definition path_join :: "string \<Rightarrow> string \<Rightarrow> string" where
  "path_join a b = a @ ''/'' @ b"



section \<open>The event loop of one upload\<close>

text \<open>
  The row handler is an \<open>async\<close> function that the parser calls and does not await. It
  runs until its first \<open>await validateEmail(email)\<close> and stops there; it goes on when
  the promise has settled, while other handlers, and the handler of \<open>end\<close>, run in
  between. A handler stopped at an \<open>await\<close> holds its \<open>name\<close>, the \<open>email\<close> under
  validation, the value the validation settles to, and the candidates of its row still to
  come. The promise of a blacklisted domain is resolved in the call itself and its handler
  goes on before anything else arrives; the model lets it go on later as well, and such a
  handler appends nothing when it does.
\<close>

datatype handler = Awaiting string string bool "string list"

text \<open>
  What reaches the process during one upload, in the order it arrives: a row from the
  parser, the settling of the promise that the \<open>i\<close>-th stopped handler awaits, the
  parser's \<open>end\<close>, the parser's \<open>error\<close>.
\<close>

datatype event = Data "string list" | Reply nat | End | Error string

text \<open>
  The formatter behind \<open>csv.write\<close> is a parameter \<open>fmt\<close> from the rows it is given to
  the text it produces.
\<close>

type_synonym formatter = "string list list \<Rightarrow> string"

definition entry_row :: "string \<times> string \<Rightarrow> string list" where
  "entry_row e = [fst e, snd e]"

text \<open>
  The state of \<open>processCSV\<close>: the shared variables, the stopped handlers, how the
  promise that \<open>processCSV\<close> returns has settled (\<open>None\<close> while it is pending), and the
  file system. The promise is resolved with the array \<open>results\<close> itself; the route reads
  it in the microtasks that follow the resolution, before any lookup can be answered, so
  the value kept here is the array as it is when \<open>end\<close> is handled.
\<close>

record server = run +
  waiting :: "handler list"
  outcome :: "(string \<times> (string \<times> string) list) promise option"
  disk :: world

definition start :: "world \<Rightarrow> server" where
  "start w = \<lparr>emails = [], results = [], lookups = [], unhandled = [],
              waiting = [], outcome = None, disk = w\<rparr>"

text \<open>The loop of a handler from its head to the next \<open>await\<close>, or to its end.\<close>

fun advance :: "resolver \<Rightarrow> string \<Rightarrow> string list \<Rightarrow> server \<Rightarrow> server" where
  "advance dns name [] s = s"
| "advance dns name (email # rest) s =
     (if js_in email (emails s) then advance dns name rest s
      else (case validateEmail dns email of
          (Rejected e, qs) \<Rightarrow>
            s\<lparr>lookups := lookups s @ qs, unhandled := unhandled s @ [e]\<rparr>
        | (Fulfilled ok, qs) \<Rightarrow>
            s\<lparr>lookups := lookups s @ qs,
              waiting := waiting s @ [Awaiting name email ok rest]\<rparr>))"

text \<open>The handler of the parser's \<open>data\<close> event, to its first \<open>await\<close>.\<close>

definition data_event :: "resolver \<Rightarrow> string list \<Rightarrow> server \<Rightarrow> server" where
  "data_event dns row s =
     (if 2 \<le> length row
      then (let name = js_trim (row ! 0);
                url = js_trim (row ! 1)
            in advance dns name (extractedEmails url) s)
      else s)"

text \<open>
  The \<open>i\<close>-th stopped handler goes on: with a true value it runs the body of the \<open>if\<close>,
  then it takes up its loop.
\<close>

definition resume :: "resolver \<Rightarrow> nat \<Rightarrow> server \<Rightarrow> server" where
  "resume dns i s =
     (if i < length (waiting s)
      then (case waiting s ! i of
              Awaiting name email ok rest \<Rightarrow>
                (let s1 = s\<lparr>waiting := take i (waiting s) @ drop (Suc i) (waiting s)\<rparr>;
                     s2 = (if ok
                           then s1\<lparr>emails := Set_add email (emails s1),
                                   results := results s1 @ [(name, email)]\<rparr>
                           else s1)
                 in advance dns name rest s2))
      else s)"

text \<open>A promise settles once: \<open>resolve\<close> and \<open>reject\<close> do nothing to a settled one.\<close>

definition settle :: "'a promise \<Rightarrow> 'a promise option \<Rightarrow> 'a promise option" where
  "settle r p = (case p of None \<Rightarrow> Some r | Some r' \<Rightarrow> Some r')"

text \<open>
  The handler of \<open>end\<close>: it spreads \<open>results\<close> as it is then into the rows for the
  writer, starts the write and resolves.
\<close>

definition end_event :: "formatter \<Rightarrow> server \<Rightarrow> server" where
  "end_event fmt s =
     (let outputFilePath = path_join UPLOAD_FOLDER ''emails.csv'';
          w' = pipe_to_file outputFilePath
                 (fmt ([''Name'', ''Email''] # map entry_row (results s))) (disk s)
      in s\<lparr>outcome := settle (Fulfilled (outputFilePath, results s)) (outcome s),
           disk := w'\<rparr>)"

definition step :: "resolver \<Rightarrow> formatter \<Rightarrow> event \<Rightarrow> server \<Rightarrow> server" where
  "step dns fmt ev s =
     (case ev of
        Data row \<Rightarrow> data_event dns row s
      | Reply i \<Rightarrow> resume dns i s
      | End \<Rightarrow> end_event fmt s
      | Error e \<Rightarrow> s\<lparr>outcome := settle (Rejected e) (outcome s)\<rparr>)"

text \<open>\<open>processCSV\<close> over the events of one upload.\<close>

definition processCSV :: "resolver \<Rightarrow> formatter \<Rightarrow> event list \<Rightarrow> world \<Rightarrow> server" where
  "processCSV dns fmt evs w = foldl (\<lambda>s ev. step dns fmt ev s) (start w) evs"

datatype body =
    Json_error string
  | Json_result string "(string \<times> string) list"
  | Text string
  | Download string
  | Error_page string

text \<open>
  The route \<open>POST /upload\<close>; \<open>req.file\<close> is absent when no file came with the request,
  and otherwise stands for the events of its processing. There is no answer while the
  promise of \<open>processCSV\<close> is pending.
\<close>

definition upload ::
  "resolver \<Rightarrow> formatter \<Rightarrow> event list option \<Rightarrow> world \<Rightarrow> (nat \<times> body) option \<times> world" where
  "upload dns fmt req_file w =
     (case req_file of
        None \<Rightarrow> (Some (400, Json_error ''No file uploaded''), w)
      | Some evs \<Rightarrow>
          (let s = processCSV dns fmt evs w in
           (case outcome s of
              None \<Rightarrow> None
            | Some (Fulfilled (outputFilePath, rs)) \<Rightarrow> Some (200, Json_result outputFilePath rs)
            | Some (Rejected err) \<Rightarrow> Some (500, Json_error ''Error processing file''),
            disk s)))"

section \<open>The download route\<close>

text \<open>
  \<open>req.query.file\<close>: absent, a string, or an array or object that the query parser
  built. \<open>fs.existsSync\<close> is false for whatever is not a string.
\<close>

datatype query = Absent | Str string | Other






section \<open>Notions for the event loop\<close>

text \<open>The variables that the handlers share, apart from the rest of the state.\<close>

definition shared :: "server \<Rightarrow> run" where
  "shared s = \<lparr>emails = emails s, results = results s, lookups = lookups s,
               unhandled = unhandled s\<rparr>"

text \<open>
  Every candidate that a stopped handler still has to look at has a second piece when
  split at \<open>@\<close>.
\<close>

definition rests_are_candidates :: "server \<Rightarrow> bool" where
  "rests_are_candidates s = (\<forall>h\<in>set (waiting s). case h of Awaiting name email ok rest \<Rightarrow>
      (\<forall>e\<in>set rest. js_index (js_split CHR ''@'' e) 1 \<noteq> None))"

section \<open>What the specification says of the extractor and of trimming\<close>

text \<open>
  A string of the form local-part\<open>@\<close>domain: a non-empty local part of letters, digits
  and \<open>. _ % + -\<close>, then a domain of letters, digits, \<open>.\<close> and \<open>-\<close> that ends in a dot
  and a top-level label of two letters at least.
\<close>

definition is_email :: "string \<Rightarrow> bool" where
  "is_email e = (\<exists>l d t. e = l @ CHR ''@'' # d @ CHR ''.'' # t
      \<and> l \<noteq> [] \<and> list_all local_char l
      \<and> d \<noteq> [] \<and> list_all domain_char d
      \<and> 2 \<le> length t \<and> list_all alpha_char t)"

text \<open>A text holds an email when one of its substrings has that form.\<close>

definition has_email :: "string \<Rightarrow> bool" where
  "has_email g = (\<exists>u e v. g = u @ e @ v \<and> is_email e)"

text \<open>
  \<open>weave gs es\<close> is the text that reads gap, match, gap, match, ..., gap: the matches
  \<open>es\<close> in order, apart from each other, with the gaps \<open>gs\<close> around them.
\<close>

fun weave :: "string list \<Rightarrow> string list \<Rightarrow> string" where
  "weave (g # gs) (e # es) = g @ e @ weave gs es"
| "weave gs [] = concat gs"
| "weave [] es = concat es"

text \<open>A trimmed string neither starts nor ends with white space.\<close>

definition trimmed :: "string \<Rightarrow> bool" where
  "trimmed t = (t = [] \<or> (\<not> js_ws (hd t) \<and> \<not> js_ws (last t)))"

section \<open>Concrete resolvers and file systems\<close>

text \<open>A resolver that knows \<open>foo.com\<close> only, and one that has a record for every domain.\<close>

definition foo_resolver :: resolver where
  "foo_resolver d = (if d = ''foo.com'' then MxRecords [(10, ''mail.foo.com'')]
     else MxError ''ENOTFOUND'')"

definition open_resolver :: resolver where
  "open_resolver d = MxRecords [(10, ''mx.'' @ d)]"

text \<open>
  A formatter for rows whose fields need no quoting: the fields of a row joined by commas,
  the rows by line feeds.
\<close>

fun join_with :: "string \<Rightarrow> string list \<Rightarrow> string" where
  "join_with sep [] = []"
| "join_with sep [x] = x"
| "join_with sep (x # y # ys) = x @ sep @ join_with sep (y # ys)"

definition plain_rows :: formatter where
  "plain_rows rows = join_with [CHR 0x0A] (map (join_with '','') rows)"

text \<open>
  A file system with the server in \<open>/srv/app\<close>, its upload folder, a dot file beside it
  and a file elsewhere that no upload produced; the same with a stale artifact; and the
  same with an artifact that cannot be opened for writing.
\<close>

definition app_world :: world where
  "app_world =
     \<lparr>nodes = [[''srv''] \<mapsto> Directory,
               [''srv'', ''app''] \<mapsto> Directory,
               [''srv'', ''app'', ''uploads''] \<mapsto> Directory,
               [''srv'', ''app'', ''.env''] \<mapsto> File ''SECRET=1'',
               [''etc''] \<mapsto> Directory,
               [''etc'', ''passwd''] \<mapsto> File ''root:x:0:0''],
      cwd = [''srv'', ''app''], unwritable = [], uncaught = []\<rparr>"

definition stale_world :: world where
  "stale_world =
     app_world\<lparr>nodes := (nodes app_world)([''srv'', ''app'', ''uploads'', ''emails.csv'']
        \<mapsto> File ''stale'')\<rparr>"

definition locked_world :: world where
  "locked_world = app_world\<lparr>unwritable := [[''srv'', ''app'', ''uploads'', ''emails.csv'']]\<rparr>"

text \<open>The rows of the scenarios.\<close>

definition alice_row :: "string list" where
  "alice_row = [''Alice'', ''contact alice@foo.com'']"

definition bob_row :: "string list" where
  "bob_row = [''Bob'', ''bob@foo.com and alice@foo.com again'']"

definition carol_row :: "string list" where
  "carol_row = [''Carol'', ''carol@foo.com'']"

section \<open>The pattern matcher is sound and complete\<close>

lemma at_not_local: "\<not> local_char CHR ''@''"
  by (simp add: local_char_def alpha_char_def in_range_def)

lemma at_not_domain: "\<not> domain_char CHR ''@''"
  by (simp add: domain_char_def alpha_char_def in_range_def)

lemma at_not_alpha: "\<not> alpha_char CHR ''@''"
  by (simp add: alpha_char_def in_range_def)

lemma take_run: "i \<le> length (takeWhile P s) \<Longrightarrow> list_all P (take i s)"
proof (induction s arbitrary: i)
  case Nil
  then show ?case by simp
next
  case (Cons a s)
  then show ?case by (cases i) (auto split: if_splits)
qed

lemma run_append: "list_all P d \<Longrightarrow> takeWhile P (d @ r) = d @ takeWhile P r"
  by (induction d) auto

lemma m_dot_tld_Some:
  assumes "m_dot_tld s = Some t"
  shows "\<exists>r. s = CHR ''.'' # r \<and> 2 \<le> length (takeWhile alpha_char r)
           \<and> t = Suc (length (takeWhile alpha_char r))"
  using assms by (auto simp: m_dot_tld_def m_tld_def Let_def split: list.splits if_splits)

lemma m_domain_Some:
  "m_domain j s = Some n \<Longrightarrow> \<exists>i t. 1 \<le> i \<and> i \<le> j \<and> m_dot_tld (drop i s) = Some t \<and> n = i + t"
proof (induction j)
  case 0
  then show ?case by simp
next
  case (Suc j)
  show ?case
  proof (cases "m_dot_tld (drop (Suc j) s)")
    case None
    with Suc.prems have "m_domain j s = Some n" by simp
    from Suc.IH [OF this] show ?thesis by (metis le_Suc_eq)
  next
    case (Some t)
    with Suc.prems have "n = Suc j + t" by simp
    with Some show ?thesis by (intro exI [of _ "Suc j"] exI [of _ t]) simp
  qed
qed

lemma m_at_domain_Some:
  assumes "m_at_domain s = Some t"
  shows "\<exists>r n. s = CHR ''@'' # r \<and> m_domain (length (takeWhile domain_char r)) r = Some n
           \<and> t = Suc n"
  using assms by (auto simp: m_at_domain_def split: list.splits if_splits)

lemma m_local_Some:
  "m_local k s = Some n \<Longrightarrow> \<exists>i t. 1 \<le> i \<and> i \<le> k \<and> m_at_domain (drop i s) = Some t \<and> n = i + t"
proof (induction k)
  case 0
  then show ?case by simp
next
  case (Suc k)
  show ?case
  proof (cases "m_at_domain (drop (Suc k) s)")
    case None
    with Suc.prems have "m_local k s = Some n" by simp
    from Suc.IH [OF this] show ?thesis by (metis le_Suc_eq)
  next
    case (Some t)
    with Suc.prems have "n = Suc k + t" by simp
    with Some show ?thesis by (intro exI [of _ "Suc k"] exI [of _ t]) simp
  qed
qed

lemma drop_eq_Cons: "drop i s = x # r \<Longrightarrow> s = take i s @ x # r \<and> length (take i s) = i"
  by (metis append_take_drop_id drop_all length_take list.distinct(1) min.absorb2 nat_le_linear)

lemma match_here_sound:
  assumes "match_here s = Some n"
  shows "n \<le> length s \<and> is_email (take n s)"
proof -
  from assms obtain i t where i: "1 \<le> i" "i \<le> length (takeWhile local_char s)"
      and t: "m_at_domain (drop i s) = Some t" and n: "n = i + t"
    unfolding match_here_def using m_local_Some by blast
  from m_at_domain_Some [OF t] obtain r n' where r: "drop i s = CHR ''@'' # r"
      and n': "m_domain (length (takeWhile domain_char r)) r = Some n'" and t': "t = Suc n'"
    by blast
  from m_domain_Some [OF n'] obtain j u where j: "1 \<le> j" "j \<le> length (takeWhile domain_char r)"
      and u: "m_dot_tld (drop j r) = Some u" and n'': "n' = j + u"
    by blast
  from m_dot_tld_Some [OF u] obtain r' where r': "drop j r = CHR ''.'' # r'"
      and k: "2 \<le> length (takeWhile alpha_char r')" and u': "u = Suc (length (takeWhile alpha_char r'))"
    by blast
  let ?l = "take i s" and ?d = "take j r" and ?t = "takeWhile alpha_char r'"
  have s: "s = ?l @ CHR ''@'' # r" and li: "length ?l = i"
    using drop_eq_Cons [OF r] by simp_all
  have rr: "r = ?d @ CHR ''.'' # r'" and lj: "length ?d = j"
    using drop_eq_Cons [OF r'] by simp_all
  have tt: "r' = ?t @ dropWhile alpha_char r'" by simp
  have nn: "n = i + Suc (j + Suc (length ?t))"
    using n t' n'' u' by simp
  have whole: "s = (?l @ CHR ''@'' # ?d @ CHR ''.'' # ?t) @ dropWhile alpha_char r'"
    using s rr tt by (metis append.assoc append_Cons)
  have len: "length (?l @ CHR ''@'' # ?d @ CHR ''.'' # ?t) = n"
    using li lj nn by simp
  have tk: "take n s = ?l @ CHR ''@'' # ?d @ CHR ''.'' # ?t"
    using whole len by (metis append_eq_conv_conj)
  have "n \<le> length s"
    using whole len by (metis le_add1 length_append)
  moreover have "is_email (take n s)"
    unfolding is_email_def tk
  proof (rule exI [of _ ?l], rule exI [of _ ?d], rule exI [of _ ?t], intro conjI)
    show "?l \<noteq> []" using li i by auto
    show "list_all local_char ?l" using i(2) by (rule take_run)
    show "?d \<noteq> []" using lj j by auto
    show "list_all domain_char ?d" using j(2) by (rule take_run)
    show "2 \<le> length ?t" by (rule k)
    show "list_all alpha_char ?t" by (simp add: list_all_iff) (meson set_takeWhileD)
  qed simp
  ultimately show ?thesis by simp
qed

lemma m_domain_complete:
  "1 \<le> i \<Longrightarrow> i \<le> j \<Longrightarrow> m_dot_tld (drop i s) \<noteq> None \<Longrightarrow> m_domain j s \<noteq> None"
proof (induction j)
  case 0
  then show ?case by simp
next
  case (Suc j)
  then show ?case by (cases "i = Suc j") (auto split: option.splits)
qed

lemma m_local_complete:
  "1 \<le> i \<Longrightarrow> i \<le> k \<Longrightarrow> m_at_domain (drop i s) \<noteq> None \<Longrightarrow> m_local k s \<noteq> None"
proof (induction k)
  case 0
  then show ?case by simp
next
  case (Suc k)
  then show ?case by (cases "i = Suc k") (auto split: option.splits)
qed

lemma match_here_complete:
  assumes "is_email e"
  shows "match_here (e @ v) \<noteq> None"
proof -
  from assms obtain l d t where e: "e = l @ CHR ''@'' # d @ CHR ''.'' # t"
      and l: "l \<noteq> []" "list_all local_char l" and d: "d \<noteq> []" "list_all domain_char d"
      and t: "2 \<le> length t" "list_all alpha_char t"
    unfolding is_email_def by blast
  let ?r = "d @ CHR ''.'' # t @ v"
  have ev: "e @ v = l @ CHR ''@'' # ?r" using e by simp
  have "takeWhile alpha_char (t @ v) = t @ takeWhile alpha_char v"
    using t(2) by (rule run_append)
  then have "m_tld (t @ v) \<noteq> None" using t(1) by (simp add: m_tld_def Let_def)
  then have "m_dot_tld (drop (length d) ?r) \<noteq> None" by (simp add: m_dot_tld_def)
  moreover have "length d \<le> length (takeWhile domain_char ?r)"
    using run_append [OF d(2), of "CHR ''.'' # t @ v"] by simp
  moreover have "1 \<le> length d" using d(1) by (cases d) auto
  ultimately have "m_domain (length (takeWhile domain_char ?r)) ?r \<noteq> None"
    using m_domain_complete [of "length d" "length (takeWhile domain_char ?r)" ?r] by blast
  then have "m_at_domain (drop (length l) (e @ v)) \<noteq> None"
    unfolding ev by (simp add: m_at_domain_def)
  moreover have "takeWhile local_char (e @ v) = l"
    unfolding ev using run_append [OF l(2), of "CHR ''@'' # ?r"] at_not_local by simp
  moreover have "1 \<le> length l" using l(1) by (cases l) auto
  ultimately show ?thesis
    unfolding match_here_def using m_local_complete [of "length l" "length l" "e @ v"] by simp
qed

section \<open>The global match\<close>

lemma is_email_nonempty: "is_email e \<Longrightarrow> e \<noteq> []"
  unfolding is_email_def by auto

lemma no_email_in_Nil: "\<not> has_email []"
  using is_email_nonempty by (auto simp: has_email_def)

lemma weave_Cons_gap: "weave ((c # g) # gs) es = c # weave (g # gs) es"
  by (cases es) simp_all

lemma weave_starts_with_gap: "\<exists>rest. weave (g # gs) es = g @ rest"
  by (cases es) simp_all

lemma match_here_pos:
  assumes "match_here s = Some n"
  shows "0 < n"
proof -
  from match_here_sound [OF assms] have "take n s \<noteq> []"
    using is_email_nonempty by blast
  then show ?thesis by (cases n) simp_all
qed

lemma gap_extend:
  assumes none: "match_here (c # s) = None" and s: "s = g @ rest" and g: "\<not> has_email g"
  shows "\<not> has_email (c # g)"
proof
  assume "has_email (c # g)"
  then obtain u e v where uev: "c # g = u @ e @ v" and e: "is_email e"
    unfolding has_email_def by blast
  show False
  proof (cases u)
    case Nil
    with uev s have "c # s = e @ (v @ rest)" by simp
    with match_here_complete [OF e, of "v @ rest"] none show False by simp
  next
    case (Cons a u')
    with uev have "g = u' @ e @ v" by simp
    with e g show False unfolding has_email_def by blast
  qed
qed

lemma match_all_emails: "e \<in> set (match_all s) \<Longrightarrow> is_email e"
proof (induction s rule: match_all.induct)
  case 1
  then show ?case by simp
next
  case (2 c s)
  show ?case
  proof (cases "match_here (c # s)")
    case None
    with 2 show ?thesis by simp
  next
    case (Some n)
    with 2 match_here_sound [OF Some] show ?thesis by auto
  qed
qed

lemma match_all_weave:
  "\<exists>gs. length gs = Suc (length (match_all s)) \<and> weave gs (match_all s) = s
        \<and> (\<forall>g\<in>set gs. \<not> has_email g)"
proof (induction s rule: match_all.induct)
  case 1
  have "length [[]::string] = Suc (length (match_all [])) \<and> weave [[]] (match_all []) = []
      \<and> (\<forall>g\<in>set [[]::string]. \<not> has_email g)"
    by (simp add: no_email_in_Nil)
  then show ?case by blast
next
  case (2 c s)
  show ?case
  proof (cases "match_here (c # s)")
    case None
    from 2(1) [OF None] obtain gs where len: "length gs = Suc (length (match_all s))"
        and w: "weave gs (match_all s) = s" and gaps: "\<forall>g\<in>set gs. \<not> has_email g"
      by blast
    from len obtain g gt where gs: "gs = g # gt" by (cases gs) simp_all
    from weave_starts_with_gap [of g gt "match_all s"] w gs
    obtain rest where "s = g @ rest" by metis
    with None gaps gs have "\<not> has_email (c # g)" by (intro gap_extend [of c s g rest]) simp_all
    with gaps gs have "\<forall>h\<in>set ((c # g) # gt). \<not> has_email h" by simp
    moreover have "weave ((c # g) # gt) (match_all (c # s)) = c # s"
      using None w gs by (simp add: weave_Cons_gap)
    moreover have "length ((c # g) # gt) = Suc (length (match_all (c # s)))"
      using None len gs by simp
    ultimately show ?thesis by blast
  next
    case (Some n)
    have n: "max 1 n = n" using match_here_pos [OF Some] by simp
    from 2(2) [OF Some] obtain gs
      where len: "length gs = Suc (length (match_all (drop n (c # s))))"
        and w: "weave gs (match_all (drop n (c # s))) = drop n (c # s)"
        and gaps: "\<forall>g\<in>set gs. \<not> has_email g"
      unfolding n by blast
    have ms: "match_all (c # s) = take n (c # s) # match_all (drop n (c # s))"
      using Some n by simp
    have "length ([] # gs) = Suc (length (match_all (c # s)))"
      using len ms by simp
    moreover have "weave ([] # gs) (match_all (c # s)) = c # s"
      unfolding ms using w by (cases gs) (simp_all del: match_all.simps)
    moreover have "\<forall>g\<in>set ([] # gs). \<not> has_email g"
      using gaps no_email_in_Nil by simp
    ultimately show ?thesis by blast
  qed
qed

lemma extractedEmails_match_all: "extractedEmails s = match_all s"
  by (simp add: extractedEmails_def js_match_def Let_def)

lemma js_split_no_sep: "c \<notin> set s \<Longrightarrow> js_split c s = [s]"
  by (induction s) auto

lemma js_split_at: "c \<notin> set l \<Longrightarrow> js_split c (l @ c # r) = l # js_split c r"
  by (induction l) auto

lemma js_split_once:
  "c \<notin> set l \<Longrightarrow> c \<notin> set d \<Longrightarrow> js_index (js_split c (l @ c # d)) 1 = Some d"
  by (simp add: js_split_at js_split_no_sep js_index_def)

lemma list_all_not: "list_all P xs \<Longrightarrow> \<not> P c \<Longrightarrow> c \<notin> set xs"
  by (auto simp: list_all_iff)

lemma is_email_parts:
  assumes "is_email e"
  shows "\<exists>l d. e = l @ CHR ''@'' # d \<and> CHR ''@'' \<notin> set l \<and> CHR ''@'' \<notin> set d \<and> d \<noteq> []"
proof -
  from assms obtain l d t where e: "e = l @ CHR ''@'' # d @ CHR ''.'' # t"
      and l: "list_all local_char l" and d: "list_all domain_char d"
      and t: "list_all alpha_char t"
    unfolding is_email_def by blast
  have "CHR ''@'' \<notin> set l" using l at_not_local by (rule list_all_not)
  moreover have "CHR ''@'' \<notin> set d" using d at_not_domain by (rule list_all_not)
  moreover have "CHR ''@'' \<notin> set t" using t at_not_alpha by (rule list_all_not)
  ultimately have "CHR ''@'' \<notin> set l \<and> CHR ''@'' \<notin> set (d @ CHR ''.'' # t)" by simp
  with e show ?thesis by (intro exI [of _ l] exI [of _ "d @ CHR ''.'' # t"]) simp
qed

lemma blacklisted_no_at: "d \<in> set BLACKLISTED_DOMAINS \<Longrightarrow> CHR ''@'' \<notin> set d"
  by (auto simp: BLACKLISTED_DOMAINS_def)

lemma first_sep_unique:
  "c \<notin> set l \<Longrightarrow> c \<notin> set l' \<Longrightarrow> l @ c # d = l' @ c # d' \<Longrightarrow> l = l' \<and> d = d'"
proof (induction l arbitrary: l')
  case Nil
  then show ?case by (cases l') auto
next
  case (Cons a l)
  then show ?case by (cases l') auto
qed

section \<open>The run\<close>

lemma js_in_at: "CHR ''@'' \<in> set key \<Longrightarrow> \<not> js_in key S"
  by (auto simp: js_in_def Set_property_names_def)

lemma js_split_defined: "js_index (js_split c s) 1 = Some d \<Longrightarrow> c \<in> set s"
  using js_split_no_sep [of c s] by (cases "c \<in> set s") (simp_all add: js_index_def)

lemma candidates_have_domain:
  assumes "e \<in> set (extractedEmails s)"
  shows "\<exists>l d. e = l @ CHR ''@'' # d \<and> CHR ''@'' \<notin> set l \<and> CHR ''@'' \<notin> set d \<and> d \<noteq> []"
  using assms match_all_emails is_email_parts unfolding extractedEmails_match_all by blast

lemma collect_unhandled:
  "\<forall>e\<in>set es. js_index (js_split CHR ''@'' e) 1 \<noteq> None
     \<Longrightarrow> unhandled (collect dns name es st) = unhandled st"
proof (induction es arbitrary: st)
  case Nil
  then show ?case by simp
next
  case (Cons e es)
  then obtain d where d: "js_index (js_split CHR ''@'' e) 1 = Some d" by auto
  have v: "fst (validateEmail dns e) = Fulfilled False
       \<or> fst (validateEmail dns e) = Fulfilled (mx_ok (dns d))"
    using d by (simp add: validateEmail_def Let_def)
  from Cons have IH: "\<And>st. unhandled (collect dns name es st) = unhandled st" by simp
  show ?case
    using v by (cases "validateEmail dns e") (auto simp: IH)
qed

lemma on_data_unhandled: "unhandled (on_data dns row st) = unhandled st"
proof (cases "2 \<le> length row")
  case True
  have "\<forall>e\<in>set (extractedEmails (js_trim (row ! 1))). js_index (js_split CHR ''@'' e) 1 \<noteq> None"
  proof
    fix e assume "e \<in> set (extractedEmails (js_trim (row ! 1)))"
    from candidates_have_domain [OF this] show "js_index (js_split CHR ''@'' e) 1 \<noteq> None"
      using js_split_once by fastforce
  qed
  from collect_unhandled [OF this] True show ?thesis by (simp add: on_data_def Let_def)
next
  case False
  then show ?thesis by (simp add: on_data_def)
qed

lemma foldl_unhandled:
  "unhandled (foldl (\<lambda>st row. on_data dns row st) st rows) = unhandled st"
  by (induction rows arbitrary: st) (simp_all add: on_data_unhandled)

lemma run_rows_unhandled: "unhandled (run_rows dns rows) = []"
  by (simp add: run_rows_def foldl_unhandled new_run_def)

lemma collect_results:
  "\<exists>new. results (collect dns name es st) = results st @ new
      \<and> (\<forall>x\<in>set new. fst x = name \<and> snd x \<in> set es)"
proof (induction es arbitrary: st)
  case Nil
  then show ?case by simp
next
  case (Cons e es)
  show ?case
  proof (cases "js_in e (emails st)")
    case True
    from Cons [of st] True show ?thesis by auto
  next
    case False
    obtain p qs where v: "validateEmail dns e = (p, qs)" by (cases "validateEmail dns e")
    show ?thesis
    proof (cases p)
      case (Rejected err)
      with v False show ?thesis by simp
    next
      case (Fulfilled ok)
      show ?thesis
      proof (cases ok)
        case True
        let ?st = "st\<lparr>emails := Set_add e (emails st), results := results st @ [(name, e)],
                     lookups := lookups st @ qs\<rparr>"
        from Cons [of ?st] obtain new where
          new: "results (collect dns name es ?st) = (results st @ [(name, e)]) @ new"
            "\<forall>x\<in>set new. fst x = name \<and> snd x \<in> set es" by auto
        have "results (collect dns name (e # es) st) = results st @ ((name, e) # new)"
          using v False Fulfilled True new(1) by simp
        moreover have "\<forall>x\<in>set ((name, e) # new). fst x = name \<and> snd x \<in> set (e # es)"
          using new(2) by auto
        ultimately show ?thesis by blast
      next
        case no: False
        from Cons [of "st\<lparr>lookups := lookups st @ qs\<rparr>"] obtain new where
          "results (collect dns name es (st\<lparr>lookups := lookups st @ qs\<rparr>)) = results st @ new"
          "\<forall>x\<in>set new. fst x = name \<and> snd x \<in> set es" by auto
        with v False Fulfilled no show ?thesis by auto
      qed
    qed
  qed
qed

lemma last_dropWhile: "dropWhile P xs \<noteq> [] \<Longrightarrow> last (dropWhile P xs) = last xs"
  by (induction xs) (auto split: if_splits)

lemma js_trim_trimmed: "trimmed (js_trim s)"
proof (cases "js_trim s = []")
  case True
  then show ?thesis by (simp add: trimmed_def)
next
  case False
  let ?a = "dropWhile js_ws s"
  let ?b = "dropWhile js_ws (rev ?a)"
  from False have b: "?b \<noteq> []" by (simp add: js_trim_def)
  then have a: "?a \<noteq> []" by (cases ?a) simp_all
  have "\<not> js_ws (hd ?b)" using b by (rule hd_dropWhile)
  then have 1: "\<not> js_ws (last (js_trim s))" using b by (simp add: js_trim_def last_rev)
  have "last ?b = last (rev ?a)" using b by (rule last_dropWhile)
  then have "hd (js_trim s) = hd ?a" using a b by (simp add: js_trim_def hd_rev last_rev)
  moreover have "\<not> js_ws (hd ?a)" using a by (rule hd_dropWhile)
  ultimately show ?thesis using 1 by (simp add: trimmed_def)
qed

section \<open>The file system and path resolution\<close>










section \<open>The event loop\<close>

lemma step_Data: "step dns fmt (Data row) s = data_event dns row s"
  by (simp add: step_def)

lemma step_Reply: "step dns fmt (Reply i) s = resume dns i s"
  by (simp add: step_def)

lemma step_End: "step dns fmt End s = end_event fmt s"
  by (simp add: step_def)

lemma step_Error: "step dns fmt (Error e) s = s\<lparr>outcome := settle (Rejected e) (outcome s)\<rparr>"
  by (simp add: step_def)

lemma short_row_is_skipped: "length row < 2 \<Longrightarrow> step dns fmt (Data row) s = s"
  by (simp add: step_Data data_event_def)

lemma advance_keeps:
  "outcome (advance dns name es s) = outcome s \<and> disk (advance dns name es s) = disk s
   \<and> results (advance dns name es s) = results s \<and> emails (advance dns name es s) = emails s"
proof (induction es)
  case Nil
  then show ?case by simp
next
  case (Cons e es)
  then show ?case by (cases "validateEmail dns e") (auto split: promise.splits)
qed

lemma data_event_keeps:
  "outcome (data_event dns row s) = outcome s \<and> disk (data_event dns row s) = disk s
   \<and> results (data_event dns row s) = results s"
  by (simp add: data_event_def Let_def advance_keeps)

lemma resume_keeps:
  "outcome (resume dns i s) = outcome s \<and> disk (resume dns i s) = disk s"
  by (simp add: resume_def Let_def advance_keeps split: handler.splits)

lemma quiet_events_keep:
  assumes "\<forall>ev\<in>set evs. (\<exists>row. ev = Data row) \<or> (\<exists>i. ev = Reply i)"
  shows "outcome (foldl (\<lambda>s ev. step dns fmt ev s) s evs) = outcome s
     \<and> disk (foldl (\<lambda>s ev. step dns fmt ev s) s evs) = disk s"
  using assms
proof (induction evs arbitrary: s)
  case Nil
  then show ?case by simp
next
  case (Cons ev evs)
  from Cons.prems have "outcome (step dns fmt ev s) = outcome s \<and> disk (step dns fmt ev s) = disk s"
    by (auto simp: step_Data step_Reply data_event_keeps resume_keeps)
  moreover from Cons.prems have "\<forall>ev\<in>set evs. (\<exists>row. ev = Data row) \<or> (\<exists>i. ev = Reply i)"
    by simp
  ultimately show ?case using Cons.IH [of "step dns fmt ev s"] by simp
qed

lemma no_reply_no_results:
  "results (foldl (\<lambda>s ev. step dns fmt ev s) s (map Data rows)) = results s"
  by (induction rows arbitrary: s) (simp_all add: step_Data data_event_keeps)

lemma end_writes_results_so_far:
  "step dns fmt End s =
     s\<lparr>outcome := settle (Fulfilled (''uploads/emails.csv'', results s)) (outcome s),
       disk := pipe_to_file ''uploads/emails.csv''
                 (fmt ([''Name'', ''Email''] # map entry_row (results s))) (disk s)\<rparr>"
  by (simp add: step_End end_event_def Let_def path_join_def UPLOAD_FOLDER_def)

lemma end_right_after_rows:
  "outcome (processCSV dns fmt (map Data rows @ [End]) w)
     = Some (Fulfilled (''uploads/emails.csv'', []))"
proof -
  let ?s = "foldl (\<lambda>s ev. step dns fmt ev s) (start w) (map Data rows)"
  have r: "results ?s = []"
    using no_reply_no_results [of dns fmt "start w" rows] by (simp add: start_def)
  have "\<forall>ev\<in>set (map Data rows). (\<exists>row. ev = Data row) \<or> (\<exists>i. ev = Reply i)" by auto
  from quiet_events_keep [OF this, of dns fmt "start w"]
  have q: "outcome ?s = None" by (simp add: start_def)
  have "processCSV dns fmt (map Data rows @ [End]) w = step dns fmt End ?s"
    by (simp add: processCSV_def)
  then show ?thesis using r q by (simp add: end_writes_results_so_far settle_def)
qed

lemma advance_unhandled:
  assumes "\<forall>e\<in>set es. js_index (js_split CHR ''@'' e) 1 \<noteq> None"
    and "rests_are_candidates s"
  shows "unhandled (advance dns name es s) = unhandled s
     \<and> rests_are_candidates (advance dns name es s)"
  using assms
proof (induction es)
  case Nil
  then show ?case by simp
next
  case (Cons e es)
  then obtain d where d: "js_index (js_split CHR ''@'' e) 1 = Some d" by auto
  then have "\<exists>ok qs. validateEmail dns e = (Fulfilled ok, qs)"
    by (auto simp: validateEmail_def Let_def)
  then obtain ok qs where v: "validateEmail dns e = (Fulfilled ok, qs)" by blast
  from Cons show ?case
    using v by (auto simp: rests_are_candidates_def)
qed

lemma resume_unhandled:
  assumes "rests_are_candidates s"
  shows "unhandled (resume dns i s) = unhandled s \<and> rests_are_candidates (resume dns i s)"
proof (cases "i < length (waiting s)")
  case False
  with assms show ?thesis by (simp add: resume_def)
next
  case True
  obtain name email ok rest where h: "waiting s ! i = Awaiting name email ok rest"
    by (cases "waiting s ! i")
  from True h have "Awaiting name email ok rest \<in> set (waiting s)"
    by (metis nth_mem)
  with assms have rest: "\<forall>e\<in>set rest. js_index (js_split CHR ''@'' e) 1 \<noteq> None"
    by (auto simp: rests_are_candidates_def)
  let ?s1 = "s\<lparr>waiting := take i (waiting s) @ drop (Suc i) (waiting s)\<rparr>"
  let ?s2 = "if ok then ?s1\<lparr>emails := Set_add email (emails ?s1),
                               results := results ?s1 @ [(name, email)]\<rparr> else ?s1"
  have "set (take i (waiting s) @ drop (Suc i) (waiting s)) \<subseteq> set (waiting s)"
    using set_take_subset set_drop_subset by fastforce
  with assms have "rests_are_candidates ?s2"
    by (auto simp: rests_are_candidates_def)
  from advance_unhandled [OF rest this, of dns name] True h show ?thesis
    by (simp add: resume_def Let_def)
qed

lemma step_unhandled:
  assumes "rests_are_candidates s"
  shows "unhandled (step dns fmt ev s) = unhandled s \<and> rests_are_candidates (step dns fmt ev s)"
proof (cases ev)
  case (Data row)
  show ?thesis
  proof (cases "2 \<le> length row")
    case True
    have "\<forall>e\<in>set (extractedEmails (js_trim (row ! 1))). js_index (js_split CHR ''@'' e) 1 \<noteq> None"
    proof
      fix e assume "e \<in> set (extractedEmails (js_trim (row ! 1)))"
      from candidates_have_domain [OF this] show "js_index (js_split CHR ''@'' e) 1 \<noteq> None"
        using js_split_once by fastforce
    qed
    from advance_unhandled [OF this assms] Data True show ?thesis
      by (simp add: step_Data data_event_def Let_def)
  next
    case False
    with Data assms show ?thesis by (simp add: step_Data data_event_def)
  qed
next
  case (Reply i)
  with resume_unhandled [OF assms] show ?thesis by (simp add: step_Reply)
next
  case End
  with assms show ?thesis
    by (simp add: step_End end_event_def Let_def rests_are_candidates_def)
next
  case (Error e)
  with assms show ?thesis by (simp add: step_Error rests_are_candidates_def)
qed

lemma events_unhandled:
  "rests_are_candidates s \<Longrightarrow>
     unhandled (foldl (\<lambda>s ev. step dns fmt ev s) s evs) = unhandled s"
proof (induction evs arbitrary: s)
  case Nil
  then show ?case by simp
next
  case (Cons ev evs)
  from step_unhandled [OF Cons.prems, of dns fmt ev] Cons.IH [of "step dns fmt ev s"]
  show ?case by simp
qed

lemma processCSV_unhandled: "unhandled (processCSV dns fmt evs w) = []"
  using events_unhandled [of "start w" dns fmt evs]
  by (simp add: processCSV_def rests_are_candidates_def start_def)

section \<open>The rows one after another as a run of the event loop\<close>

lemma handler_answered_at_once:
  "waiting s = [] \<Longrightarrow>
   \<exists>k. shared (foldl (\<lambda>s ev. step dns fmt ev s) (advance dns name es s) (replicate k (Reply 0)))
          = collect dns name es (shared s)
      \<and> waiting (foldl (\<lambda>s ev. step dns fmt ev s) (advance dns name es s)
          (replicate k (Reply 0))) = []"
proof (induction es arbitrary: s)
  case Nil
  have "shared (foldl (\<lambda>s ev. step dns fmt ev s) (advance dns name [] s) (replicate 0 (Reply 0)))
      = collect dns name [] (shared s)
    \<and> waiting (foldl (\<lambda>s ev. step dns fmt ev s) (advance dns name [] s)
        (replicate 0 (Reply 0))) = []"
    using Nil by simp
  then show ?case by blast
next
  case (Cons e es)
  let ?run = "\<lambda>s evs. foldl (\<lambda>s ev. step dns fmt ev s) s evs"
  show ?case
  proof (cases "js_in e (emails s)")
    case True
    with Cons.IH [OF Cons.prems] show ?thesis by (simp add: shared_def)
  next
    case False
    obtain p qs where v: "validateEmail dns e = (p, qs)" by (cases "validateEmail dns e")
    show ?thesis
    proof (cases p)
      case (Rejected err)
      have "shared (?run (advance dns name (e # es) s) (replicate 0 (Reply 0)))
          = collect dns name (e # es) (shared s)
        \<and> waiting (?run (advance dns name (e # es) s) (replicate 0 (Reply 0))) = []"
        using False v Rejected Cons.prems by (simp add: shared_def)
      then show ?thesis by blast
    next
      case (Fulfilled ok)
      let ?s0 = "s\<lparr>lookups := lookups s @ qs, waiting := [Awaiting name e ok es]\<rparr>"
      let ?s1 = "?s0\<lparr>waiting := []\<rparr>"
      let ?s2 = "if ok then ?s1\<lparr>emails := Set_add e (emails ?s1),
                                  results := results ?s1 @ [(name, e)]\<rparr> else ?s1"
      have adv: "advance dns name (e # es) s = ?s0"
        using False v Fulfilled Cons.prems by simp
      have res: "step dns fmt (Reply 0) ?s0 = advance dns name es ?s2"
        by (simp add: step_Reply resume_def Let_def)
      have "waiting ?s2 = []" by simp
      from Cons.IH [OF this] obtain k where
        k: "shared (?run (advance dns name es ?s2) (replicate k (Reply 0)))
              = collect dns name es (shared ?s2)"
           "waiting (?run (advance dns name es ?s2) (replicate k (Reply 0))) = []"
        by blast
      have col: "collect dns name (e # es) (shared s) = collect dns name es (shared ?s2)"
        using False v Fulfilled by (simp add: shared_def)
      have "?run (advance dns name (e # es) s) (replicate (Suc k) (Reply 0))
          = ?run (advance dns name es ?s2) (replicate k (Reply 0))"
        unfolding adv using res by simp
      with k col have "shared (?run (advance dns name (e # es) s) (replicate (Suc k) (Reply 0)))
          = collect dns name (e # es) (shared s)
        \<and> waiting (?run (advance dns name (e # es) s) (replicate (Suc k) (Reply 0))) = []"
        by simp
      then show ?thesis by blast
    qed
  qed
qed

lemma row_answered_at_once:
  assumes "waiting s = []"
  shows "\<exists>k. shared (foldl (\<lambda>s ev. step dns fmt ev s) s (Data row # replicate k (Reply 0)))
          = on_data dns row (shared s)
      \<and> waiting (foldl (\<lambda>s ev. step dns fmt ev s) s (Data row # replicate k (Reply 0))) = []"
proof (cases "2 \<le> length row")
  case True
  from handler_answered_at_once [OF assms, of dns fmt "js_trim (row ! 0)"
      "extractedEmails (js_trim (row ! 1))"]
  show ?thesis using True by (simp add: step_Data data_event_def on_data_def Let_def)
next
  case False
  have "shared (foldl (\<lambda>s ev. step dns fmt ev s) s (Data row # replicate 0 (Reply 0)))
          = on_data dns row (shared s)
      \<and> waiting (foldl (\<lambda>s ev. step dns fmt ev s) s (Data row # replicate 0 (Reply 0))) = []"
    using False assms by (simp add: step_Data data_event_def on_data_def)
  then show ?thesis by blast
qed

lemma rows_answered_at_once:
  "waiting s = [] \<Longrightarrow>
   \<exists>evs. shared (foldl (\<lambda>s ev. step dns fmt ev s) s evs)
            = foldl (\<lambda>st row. on_data dns row st) (shared s) rows
      \<and> End \<notin> set evs"
proof (induction rows arbitrary: s)
  case Nil
  have "shared (foldl (\<lambda>s ev. step dns fmt ev s) s [])
      = foldl (\<lambda>st row. on_data dns row st) (shared s) [] \<and> End \<notin> set []"
    by simp
  then show ?case by blast
next
  case (Cons row rows)
  let ?run = "\<lambda>s evs. foldl (\<lambda>s ev. step dns fmt ev s) s evs"
  from row_answered_at_once [OF Cons.prems, of dns fmt row] obtain k where
    k: "shared (?run s (Data row # replicate k (Reply 0))) = on_data dns row (shared s)"
       "waiting (?run s (Data row # replicate k (Reply 0))) = []"
    by blast
  from Cons.IH [OF k(2)] obtain evs where
    evs: "shared (?run (?run s (Data row # replicate k (Reply 0))) evs)
           = foldl (\<lambda>st row. on_data dns row st)
               (shared (?run s (Data row # replicate k (Reply 0)))) rows"
         "End \<notin> set evs"
    by blast
  have "shared (?run s ((Data row # replicate k (Reply 0)) @ evs))
      = foldl (\<lambda>st row. on_data dns row st) (shared s) (row # rows)"
    using evs(1) k(1) by (simp only: foldl_append foldl_Cons)
  moreover have "End \<notin> set ((Data row # replicate k (Reply 0)) @ evs)"
    using evs(2) by auto
  ultimately show ?case by blast
qed

lemma run_rows_is_a_run:
  "\<exists>evs. shared (processCSV dns fmt evs w) = run_rows dns rows \<and> End \<notin> set evs"
  using rows_answered_at_once [of "start w" dns fmt rows]
  by (simp add: processCSV_def run_rows_def shared_def start_def new_run_def)

section \<open>The claims\<close>

subsection \<open>C1: deduplication\<close>

lemma candidate_never_in_Set:
  assumes "e \<in> set (extractedEmails s)"
  shows "\<not> js_in e S"
proof -
  from candidates_have_domain [OF assms] have "CHR ''@'' \<in> set e" by auto
  then show ?thesis by (rule js_in_at)
qed

lemma scenario_run:
  "run_rows foo_resolver [[''Alice'', ''contact alice@foo.com''],
      [''Bob'', ''bob@foo.com and alice@foo.com again'']]
   = \<lparr>emails = [''alice@foo.com'', ''bob@foo.com''],
      results = [(''Alice'', ''alice@foo.com''), (''Bob'', ''bob@foo.com''),
                 (''Bob'', ''alice@foo.com'')],
      lookups = [''foo.com'', ''foo.com'', ''foo.com''], unhandled = []\<rparr>"
  by code_simp

text \<open>
  C1 says that no run puts the same email into the output twice, and that the rows
  \<open>("Alice", "contact alice@foo.com")\<close>, \<open>("Bob", "bob@foo.com and alice@foo.com again")\<close>
  with \<open>foo.com\<close> resolvable give exactly Alice's and Bob's own addresses. The code tests
  \<open>email in emails\<close>, which asks for a property of the \<open>Set\<close> object and is false for every
  candidate, so the second \<open>alice@foo.com\<close> is validated and appended again. On these
  rows, with \<open>end\<close> handled before the lookups are answered, the array \<open>results\<close> ends
  with three entries, two of them with the same email, and the promise has been resolved
  with no entry at all; with \<open>end\<close> handled after the answers the promise is resolved
  with the three entries.
\<close>

theorem processCSV_keeps_duplicate:
  "results (processCSV foo_resolver plain_rows
      [Data alice_row, Data bob_row, End, Reply 0, Reply 0, Reply 0] app_world)
     = [(''Alice'', ''alice@foo.com''), (''Bob'', ''bob@foo.com''), (''Bob'', ''alice@foo.com'')]
   \<and> outcome (processCSV foo_resolver plain_rows
      [Data alice_row, Data bob_row, End, Reply 0, Reply 0, Reply 0] app_world)
     = Some (Fulfilled (''uploads/emails.csv'', []))
   \<and> outcome (processCSV foo_resolver plain_rows
      [Data alice_row, Data bob_row, Reply 0, Reply 0, Reply 0, End] app_world)
     = Some (Fulfilled (''uploads/emails.csv'',
         [(''Alice'', ''alice@foo.com''), (''Bob'', ''bob@foo.com''),
          (''Bob'', ''alice@foo.com'')]))"
  by code_simp

subsection \<open>C2: the blacklist comes before the lookup\<close>

text \<open>
  C2: when the part of the email after its first \<open>@\<close> is a blacklisted domain,
  \<open>validateEmail\<close> resolves to false whatever the resolver would answer and hands no
  domain to \<open>dns.resolveMx\<close>; in the loop the candidate leaves the state of the run as it
  was.
\<close>

theorem validateEmail_blacklisted:
  assumes "email = l @ CHR ''@'' # d" and "CHR ''@'' \<notin> set l"
    and "d \<in> set BLACKLISTED_DOMAINS"
  shows "validateEmail dns email = (Fulfilled False, [])
     \<and> collect dns name (email # rest) st = collect dns name rest st"
proof -
  have "js_index (js_split CHR ''@'' email) 1 = Some d"
    unfolding assms(1) using assms(2) blacklisted_no_at [OF assms(3)] by (rule js_split_once)
  then have v: "validateEmail dns email = (Fulfilled False, [])"
    using assms(3) by (simp add: validateEmail_def Set_has_def)
  then show ?thesis by simp
qed

text \<open>\<open>user@sentry.io\<close>, with a resolver that has a record for \<open>sentry.io\<close>.\<close>

theorem validateEmail_blacklisted_witness:
  "''user@sentry.io'' = ''user'' @ CHR ''@'' # ''sentry.io''
   \<and> CHR ''@'' \<notin> set ''user'' \<and> ''sentry.io'' \<in> set BLACKLISTED_DOMAINS
   \<and> open_resolver ''sentry.io'' = MxRecords [(10, ''mx.sentry.io'')]
   \<and> validateEmail open_resolver ''user@sentry.io'' = (Fulfilled False, [])"
  using validateEmail_blacklisted [of "''user@sentry.io''" "''user''" "''sentry.io''" open_resolver]
  by (simp add: BLACKLISTED_DOMAINS_def open_resolver_def)

subsection \<open>C3: the lookup decides, and its failure is a rejection\<close>

text \<open>
  C3: for a candidate the extractor produced whose domain, the part after its first
  \<open>@\<close>, is not blacklisted, \<open>validateEmail\<close> looks that domain up once and resolves to
  true exactly when the lookup returns without error and with one record at least. A
  lookup that fails only leaves the candidate out: the loop goes on with the next
  candidate, \<open>results\<close> and \<open>emails\<close> unchanged, and no run, whatever the resolver
  answers, ends with a rejected handler.
\<close>

theorem validateEmail_follows_lookup:
  assumes "email \<in> set (extractedEmails text)"
    and "email = l @ CHR ''@'' # d" and "CHR ''@'' \<notin> set l"
    and "d \<notin> set BLACKLISTED_DOMAINS"
  shows "validateEmail dns email = (Fulfilled (mx_ok (dns d)), [d])
     \<and> mx_ok (dns d) = (\<exists>a. dns d = MxRecords a \<and> a \<noteq> [])
     \<and> (\<not> mx_ok (dns d) \<longrightarrow>
          collect dns name (email # rest) st
            = collect dns name rest (st\<lparr>lookups := lookups st @ [d]\<rparr>))
     \<and> unhandled (run_rows dns rows) = []"
proof -
  from candidates_have_domain [OF assms(1)] obtain l' d'
    where "email = l' @ CHR ''@'' # d'" "CHR ''@'' \<notin> set l'" "CHR ''@'' \<notin> set d'"
    by blast
  with assms(2,3) have "CHR ''@'' \<notin> set d"
    using first_sep_unique [of "CHR ''@''" l l' d d'] by simp
  with assms(3) have split: "js_index (js_split CHR ''@'' email) 1 = Some d"
    unfolding assms(2) by (rule js_split_once)
  have v: "validateEmail dns email = (Fulfilled (mx_ok (dns d)), [d])"
    using split assms(4) by (simp add: validateEmail_def Set_has_def)
  have ok: "mx_ok (dns d) = (\<exists>a. dns d = MxRecords a \<and> a \<noteq> [])"
    by (cases "dns d") (simp_all add: mx_ok_def)
  have "\<not> js_in email (emails st)"
    using js_split_defined [OF split] by (rule js_in_at)
  then have "\<not> mx_ok (dns d) \<longrightarrow>
      collect dns name (email # rest) st = collect dns name rest (st\<lparr>lookups := lookups st @ [d]\<rparr>)"
    using v by simp
  with v ok run_rows_unhandled show ?thesis by blast
qed

text \<open>A candidate whose domain does not resolve, followed by one whose domain does.\<close>

theorem validateEmail_follows_lookup_witness:
  "''bob@nowhere.invalid'' \<in> set (extractedEmails ''write to bob@nowhere.invalid'')
   \<and> ''bob@nowhere.invalid'' = ''bob'' @ CHR ''@'' # ''nowhere.invalid''
   \<and> CHR ''@'' \<notin> set ''bob''
   \<and> ''nowhere.invalid'' \<notin> set BLACKLISTED_DOMAINS
   \<and> foo_resolver ''nowhere.invalid'' = MxError ''ENOTFOUND''
   \<and> validateEmail foo_resolver ''bob@nowhere.invalid'' = (Fulfilled False, [''nowhere.invalid''])
   \<and> collect foo_resolver ''Bob'' [''bob@nowhere.invalid'', ''bob@foo.com''] new_run
       = collect foo_resolver ''Bob'' [''bob@foo.com''] (new_run\<lparr>lookups := [''nowhere.invalid'']\<rparr>)"
proof -
  have c: "''bob@nowhere.invalid'' \<in> set (extractedEmails ''write to bob@nowhere.invalid'')"
    by code_simp
  have s: "''bob@nowhere.invalid'' = ''bob'' @ CHR ''@'' # ''nowhere.invalid''"
    and a: "CHR ''@'' \<notin> set ''bob''"
    by simp_all
  have b: "''nowhere.invalid'' \<notin> set BLACKLISTED_DOMAINS"
    by (simp add: BLACKLISTED_DOMAINS_def)
  have r: "foo_resolver ''nowhere.invalid'' = MxError ''ENOTFOUND''"
    by (simp add: foo_resolver_def)
  from validateEmail_follows_lookup [OF c s a b, of foo_resolver "''Bob''" "[''bob@foo.com'']" new_run]
  show ?thesis using c b r by (simp add: mx_ok_def new_run_def)
qed

subsection \<open>C4: the extractor\<close>

text \<open>
  C4: the extractor returns nothing for the empty text; every string it returns has the
  form local-part\<open>@\<close>domain; the strings it returns are substrings of the text, in the
  order of the text and apart from each other, exactly as they are written there; and it
  returns all of them, in that no stretch of text it leaves between them holds an email.
  It is a function of the text alone, so two applications to one text agree.
\<close>

theorem extractor_contract:
  "extractedEmails [] = []
   \<and> (\<forall>e\<in>set (extractedEmails s). is_email e)
   \<and> (\<exists>gs. length gs = Suc (length (extractedEmails s))
          \<and> weave gs (extractedEmails s) = s
          \<and> (\<forall>g\<in>set gs. \<not> has_email g))"
  using match_all_emails match_all_weave [of s]
  by (simp add: extractedEmails_match_all)

text \<open>Two addresses in one text, the first with capitals, which stay.\<close>

theorem extractor_contract_witness:
  "extractedEmails ''Bob@Foo.com and alice@foo.com again'' = [''Bob@Foo.com'', ''alice@foo.com'']
   \<and> is_email ''Bob@Foo.com'' \<and> is_email ''alice@foo.com''
   \<and> (\<exists>gs. length gs = 3
          \<and> weave gs [''Bob@Foo.com'', ''alice@foo.com''] = ''Bob@Foo.com and alice@foo.com again''
          \<and> (\<forall>g\<in>set gs. \<not> has_email g))"
proof -
  have ev: "extractedEmails ''Bob@Foo.com and alice@foo.com again''
      = [''Bob@Foo.com'', ''alice@foo.com'']"
    by code_simp
  from extractor_contract [of "''Bob@Foo.com and alice@foo.com again''"]
  show ?thesis unfolding ev by (simp add: numeral_3_eq_3)
qed

subsection \<open>C5: short rows and trimming\<close>

text \<open>
  C5: a row of fewer than two fields leaves the run as it was: no candidate, no lookup,
  no entry and no error. For a row of two fields or more the handler works on the trimmed
  first and second field: the candidates are extracted from the trimmed text, both
  trimmed fields are free of white space at either end, and every entry the row adds
  carries the trimmed name.
\<close>

theorem on_data_skips_and_trims:
  "(length row < 2 \<longrightarrow> on_data dns row st = st)
   \<and> (2 \<le> length row \<longrightarrow>
        on_data dns row st
          = collect dns (js_trim (row ! 0)) (extractedEmails (js_trim (row ! 1))) st
        \<and> trimmed (js_trim (row ! 0)) \<and> trimmed (js_trim (row ! 1))
        \<and> (\<exists>new. results (on_data dns row st) = results st @ new
              \<and> (\<forall>x\<in>set new. fst x = js_trim (row ! 0)
                    \<and> snd x \<in> set (extractedEmails (js_trim (row ! 1))))))"
proof (cases "2 \<le> length row")
  case True
  then have "on_data dns row st
      = collect dns (js_trim (row ! 0)) (extractedEmails (js_trim (row ! 1))) st"
    by (simp add: on_data_def Let_def)
  with True collect_results [of dns "js_trim (row ! 0)" "extractedEmails (js_trim (row ! 1))" st]
    js_trim_trimmed show ?thesis by simp
next
  case False
  then show ?thesis by (simp add: on_data_def)
qed

text \<open>A row of one field that holds an address, and a row whose two fields are padded.\<close>

theorem on_data_skips_and_trims_witness:
  "length [''only one field carol@foo.com''] < 2
   \<and> on_data foo_resolver [''only one field carol@foo.com''] new_run = new_run
   \<and> 2 \<le> length [''  Carol '', '' see carol@foo.com  '']
   \<and> js_trim ''  Carol '' = ''Carol''
   \<and> js_trim '' see carol@foo.com  '' = ''see carol@foo.com''
   \<and> results (on_data foo_resolver [''  Carol '', '' see carol@foo.com  ''] new_run)
       = [(''Carol'', ''carol@foo.com'')]"
proof -
  have t: "js_trim ''  Carol '' = ''Carol''" "js_trim '' see carol@foo.com  '' = ''see carol@foo.com''"
    by code_simp+
  have r: "results (collect foo_resolver ''Carol'' (extractedEmails ''see carol@foo.com'') new_run)
      = [(''Carol'', ''carol@foo.com'')]"
    by code_simp
  from on_data_skips_and_trims [of "[''only one field carol@foo.com'']" foo_resolver new_run]
    on_data_skips_and_trims [of "[''  Carol '', '' see carol@foo.com  '']" foo_resolver new_run]
  show ?thesis using t r by simp
qed

subsection \<open>C6: the result writer\<close>

text \<open>
  C6 says that every run writes the header and then one row for each accepted entry. The
  handler of \<open>end\<close> writes \<open>results\<close> as it is when \<open>end\<close> arrives
  (\<open>end_writes_results_so_far\<close>), and no handler of a row is awaited: with two rows whose
  lookups are answered after \<open>end\<close>, the artifact replaces the stale one and holds the
  header alone, while both entries are accepted afterwards.
\<close>

theorem artifact_misses_late_entries:
  "stat (disk (processCSV foo_resolver plain_rows
      [Data alice_row, Data carol_row, End, Reply 0, Reply 0] stale_world))
      ''uploads/emails.csv'' = Some (File ''Name,Email'')
   \<and> results (processCSV foo_resolver plain_rows
      [Data alice_row, Data carol_row, End, Reply 0, Reply 0] stale_world)
     = [(''Alice'', ''alice@foo.com''), (''Carol'', ''carol@foo.com'')]"
  by code_simp

subsection \<open>C7: failures of the parser and of the writer\<close>

lemma parse_error_answered_as_failure:
  assumes "\<forall>ev\<in>set evs. (\<exists>row. ev = Data row) \<or> (\<exists>i. ev = Reply i)"
  shows "upload dns fmt (Some (evs @ [Error e])) w
     = (Some (500, Json_error ''Error processing file''), w)"
proof -
  let ?s = "foldl (\<lambda>s ev. step dns fmt ev s) (start w) evs"
  from quiet_events_keep [OF assms, of dns fmt "start w"]
  have q: "outcome ?s = None" "disk ?s = w" by (simp_all add: start_def)
  have "processCSV dns fmt (evs @ [Error e]) w = step dns fmt (Error e) ?s"
    by (simp add: processCSV_def)
  also have "\<dots> = ?s\<lparr>outcome := Some (Rejected e)\<rparr>"
    using q(1) by (simp add: step_Error settle_def)
  finally show ?thesis using q(2) by (simp add: upload_def Let_def)
qed

text \<open>
  C7 says that a parse error and a write error both abort the run and reach the caller
  as a generic failure, with no result emitted. The parser's error does
  (\<open>parse_error_answered_as_failure\<close>). A write error does not: \<open>processCSV\<close> resolves
  as soon as the write is started and the write stream has no \<open>error\<close> listener, so with
  an artifact that cannot be opened the caller is answered 200, the error stays uncaught
  and no artifact is there.
\<close>

theorem write_error_answered_as_success:
  "fst (upload foo_resolver plain_rows (Some [Data alice_row, End]) locked_world)
     = Some (200, Json_result ''uploads/emails.csv'' [])
   \<and> uncaught (snd (upload foo_resolver plain_rows (Some [Data alice_row, End]) locked_world))
     = [EACCES]
   \<and> stat (snd (upload foo_resolver plain_rows (Some [Data alice_row, End]) locked_world))
       ''uploads/emails.csv'' = None"
  by code_simp

subsection \<open>C9: the domain of a candidate is defined\<close>

text \<open>
  C9: a string the extractor returns has exactly one \<open>@\<close>, so \<open>email.split("@")[1]\<close> is
  defined and not empty for it, and \<open>validateEmail\<close> never rejects its promise on a
  candidate.
\<close>

theorem candidates_have_one_at:
  assumes "e \<in> set (extractedEmails s)"
  shows "length (filter (\<lambda>c. c = CHR ''@'') e) = 1
     \<and> (\<exists>d. js_index (js_split CHR ''@'' e) 1 = Some d \<and> d \<noteq> [])
     \<and> (\<exists>ok. fst (validateEmail dns e) = Fulfilled ok)"
proof -
  from candidates_have_domain [OF assms] obtain l d where e: "e = l @ CHR ''@'' # d"
      and l: "CHR ''@'' \<notin> set l" and d: "CHR ''@'' \<notin> set d" "d \<noteq> []"
    by blast
  have "filter (\<lambda>c. c = CHR ''@'') l = []" "filter (\<lambda>c. c = CHR ''@'') d = []"
    using l d(1) by (auto simp: filter_empty_conv)
  then have 1: "length (filter (\<lambda>c. c = CHR ''@'') e) = 1" using e by simp
  have 2: "js_index (js_split CHR ''@'' e) 1 = Some d"
    unfolding e using l d(1) by (rule js_split_once)
  then have "\<exists>ok. fst (validateEmail dns e) = Fulfilled ok"
    by (auto simp: validateEmail_def Let_def)
  with 1 2 d(2) show ?thesis by blast
qed

theorem candidates_have_one_at_witness:
  "''alice@foo.com'' \<in> set (extractedEmails ''contact alice@foo.com'')
   \<and> length (filter (\<lambda>c. c = CHR ''@'') ''alice@foo.com'') = 1
   \<and> js_index (js_split CHR ''@'' ''alice@foo.com'') 1 = Some ''foo.com''"
proof -
  have ev: "''alice@foo.com'' \<in> set (extractedEmails ''contact alice@foo.com'')"
    by code_simp
  from candidates_have_one_at [OF ev, of foo_resolver]
  show ?thesis using ev by (simp add: js_index_def)
qed

subsection \<open>C10: the download route\<close>




end
